theory Spec2Isabelle
  imports Main
begin

section \<open>The JSON-file database of \<^verbatim>\<open>src/utils/json-db.js\<close>\<close>

text \<open>
  The class \<^verbatim>\<open>JSONDatabase\<close> keeps three JSON files that matter here:
  \<^verbatim>\<open>users.json\<close>, \<^verbatim>\<open>api-keys.json\<close> and \<^verbatim>\<open>logs.json\<close>. Every method reads a
  file, changes the parsed value and writes it back. The model passes the contents of
  the three files around as one record and every method returns the contents after
  its last write. Methods are run one after the other (no interleaving of two calls),
  and reading and writing the files does not fail.

  What the source takes from outside is a parameter of the model:
  \<^item> \<^verbatim>\<open>uuidv4()\<close>: the fresh identifier is an argument;
  \<^item> \<^verbatim>\<open>new Date().toISOString()\<close> and \<^verbatim>\<open>new Date().toDateString()\<close>: the time stamp
    and the calendar day are arguments;
  \<^item> \<^verbatim>\<open>bcrypt.hash\<close> and \<^verbatim>\<open>bcrypt.compare\<close> of the library bcryptjs: function
    arguments \<open>hsh\<close> (the hash with the salt drawn for the call) and \<open>cmp\<close>.
  Numbers that the source only counts up from 0 are natural numbers; a field that a
  freshly created object does not have (\<^verbatim>\<open>undefined\<close>) or that holds \<^verbatim>\<open>null\<close> is an
  option.
\<close>

subsection \<open>Data\<close>

text \<open>A user as \<^verbatim>\<open>getUserById\<close> returns it: every field but the password.\<close>

record userInfo =
  id_u :: string
  username :: string
  email :: string
  role :: string
  createdAt_u :: string
  lastLogin :: "string option"
  isActive_u :: bool
  apiLimit :: nat
  usageToday :: nat
  lastResetDate :: "string option"

text \<open>A user as stored in \<^verbatim>\<open>users.json\<close>.\<close>

record user = userInfo +
  password :: string

text \<open>A key record as stored in \<^verbatim>\<open>api-keys.json\<close>.\<close>

record apiKeyRec =
  id_k :: string
  userId :: string
  name :: string
  key :: string
  plainKey :: string
  createdAt_k :: string
  lastUsed :: "string option"
  usageCount :: nat
  isActive_k :: bool
  rateLimit :: nat
  endpoints :: "string list"
  revokedAt :: "string option"

text \<open>The optional argument \<^verbatim>\<open>data\<close> of \<^verbatim>\<open>logApiUsage\<close> and a log entry.\<close>

record logData =
  d_ip :: "string option"
  d_userAgent :: "string option"

record logEntry =
  id_l :: string
  apiKey_l :: string
  endpoint :: string
  timestamp :: string
  data_l :: logData
  ip :: string
  userAgent :: string

record store =
  users :: "user list"
  apiKeys :: "apiKeyRec list"
  logs :: "logEntry list"

datatype error = UserAlreadyExists | ApiKeyNotFound

subsection \<open>JavaScript helpers\<close>

text \<open>\<^verbatim>\<open>Array.prototype.find\<close> and \<^verbatim>\<open>findIndex\<close>: the first element that satisfies the
  predicate; \<open>None\<close> stands for \<^verbatim>\<open>undefined\<close> and for \<^verbatim>\<open>-1\<close>.\<close>

fun findIndex :: "('a \<Rightarrow> bool) \<Rightarrow> 'a list \<Rightarrow> nat option" where
  "findIndex p [] = None"
| "findIndex p (x # xs) =
     (if p x then Some 0 else map_option Suc (findIndex p xs))"

text \<open>\<^verbatim>\<open>a || b\<close> on a string that may be missing: the empty string is falsy.\<close>

definition orElse :: "string option \<Rightarrow> string \<Rightarrow> string" where
  "orElse a b = (case a of None \<Rightarrow> b | Some v \<Rightarrow> if v = [] then b else v)"

text \<open>\<^verbatim>\<open>s.startsWith(p)\<close> and \<^verbatim>\<open>s.substring(0, n)\<close> (which is \<open>take n s\<close>).\<close>

definition startsWith :: "string \<Rightarrow> string \<Rightarrow> bool" where
  "startsWith s p = (take (length p) s = p)"

text \<open>\<^verbatim>\<open>s.replace(/-/g, '')\<close>.\<close>

definition removeDashes :: "string \<Rightarrow> string" where
  "removeDashes s = filter (\<lambda>c. c \<noteq> CHR ''-'') s"

subsection \<open>Users\<close>

text \<open>\<^verbatim>\<open>createUser(username, email, password)\<close>. The argument \<open>hsh\<close> is
  \<^verbatim>\<open>bcrypt.hash(_, 10)\<close> with the salt of this call. The exception is thrown before
  anything is written.\<close>

definition createUser ::
  "(string \<Rightarrow> string) \<Rightarrow> store \<Rightarrow> string \<Rightarrow> string \<Rightarrow> string \<Rightarrow> string \<Rightarrow> string
    \<Rightarrow> (error + userInfo) \<times> store" where
  "createUser hsh s username' email' password' uuid now =
     (case List.find (\<lambda>u. email u = email' \<or> username u = username') (users s) of
        Some existingUser \<Rightarrow> (Inl UserAlreadyExists, s)
      | None \<Rightarrow>
          (let hashedPassword = hsh password';
               newUser = \<lparr>id_u = uuid, username = username', email = email',
                          role = ''user'', createdAt_u = now, lastLogin = None,
                          isActive_u = True, apiLimit = 1000, usageToday = 0,
                          lastResetDate = None, password = hashedPassword\<rparr>
           in (Inr (userInfo.truncate newUser), s\<lparr>users := users s @ [newUser]\<rparr>)))"

definition getUserById :: "store \<Rightarrow> string \<Rightarrow> userInfo option" where
  "getUserById s userId' =
     map_option userInfo.truncate (List.find (\<lambda>u. id_u u = userId') (users s))"

subsection \<open>API keys\<close>

text \<open>What \<^verbatim>\<open>createApiKey\<close> returns to its caller.\<close>

record createdKey =
  id_c :: string
  name_c :: string
  apiKey_c :: string
  createdAt_c :: string

text \<open>\<^verbatim>\<open>createApiKey(userId, name = 'Default Key')\<close>: \<open>uuid1\<close> is the identifier the
  secret is made of, \<open>uuid2\<close> the identifier of the record. The object \<^verbatim>\<open>newApiKey\<close>,
  with its field \<^verbatim>\<open>plainKey\<close>, is pushed and written to \<^verbatim>\<open>api-keys.json\<close>.\<close>

definition createApiKey ::
  "(string \<Rightarrow> string) \<Rightarrow> store \<Rightarrow> string \<Rightarrow> string option \<Rightarrow> string \<Rightarrow> string \<Rightarrow> string
    \<Rightarrow> createdKey \<times> store" where
  "createApiKey hsh s userId' name' uuid1 uuid2 now =
     (let apiKey = ''shd_'' @ removeDashes uuid1;
          hashedKey = hsh apiKey;
          newApiKey = \<lparr>id_k = uuid2, userId = userId',
                       name = (case name' of None \<Rightarrow> ''Default Key'' | Some n \<Rightarrow> n),
                       key = hashedKey, plainKey = apiKey, createdAt_k = now,
                       lastUsed = None, usageCount = 0, isActive_k = True,
                       rateLimit = 100, endpoints = [''*''], revokedAt = None\<rparr>
      in (\<lparr>id_c = id_k newApiKey, name_c = name newApiKey, apiKey_c = apiKey,
           createdAt_c = createdAt_k newApiKey\<rparr>,
          s\<lparr>apiKeys := apiKeys s @ [newApiKey]\<rparr>))"

text \<open>The loop of \<^verbatim>\<open>validateApiKey\<close> over \<^verbatim>\<open>data.apiKeys\<close>: at the first record whose
  hash matches and that is active, the record is stamped and counted; the result is
  that record and the array as it is written back.\<close>

fun validateScan ::
  "(string \<Rightarrow> string \<Rightarrow> bool) \<Rightarrow> string \<Rightarrow> string \<Rightarrow> apiKeyRec list
    \<Rightarrow> (apiKeyRec \<times> apiKeyRec list) option" where
  "validateScan cmp now apiKey [] = None"
| "validateScan cmp now apiKey (keyData # rest) =
     (if cmp apiKey (key keyData) \<and> isActive_k keyData
      then (let keyData' = keyData\<lparr>lastUsed := Some now,
                                     usageCount := usageCount keyData + 1\<rparr>
            in Some (keyData', keyData' # rest))
      else map_option (\<lambda>(found, rest'). (found, keyData # rest'))
             (validateScan cmp now apiKey rest))"

record validInfo =
  v_userId :: string
  v_keyId :: string
  v_user :: "userInfo option"
  v_permissions :: "string list"
  v_rateLimit :: nat

text \<open>\<^verbatim>\<open>{ valid: false }\<close> has no other field.\<close>

datatype validation = Invalid | Valid validInfo

definition validateApiKey ::
  "(string \<Rightarrow> string \<Rightarrow> bool) \<Rightarrow> store \<Rightarrow> string \<Rightarrow> string \<Rightarrow> validation \<times> store" where
  "validateApiKey cmp s apiKey now =
     (case validateScan cmp now apiKey (apiKeys s) of
        None \<Rightarrow> (Invalid, s)
      | Some (keyData, keys') \<Rightarrow>
          (let s' = s\<lparr>apiKeys := keys'\<rparr>;
               user = getUserById s' (userId keyData)
           in (Valid \<lparr>v_userId = userId keyData, v_keyId = id_k keyData, v_user = user,
                      v_permissions = endpoints keyData,
                      v_rateLimit = rateLimit keyData\<rparr>, s')))"

record keySummary =
  id_s :: string
  name_s :: string
  createdAt_s :: string
  lastUsed_s :: "string option"
  usageCount_s :: nat

definition getApiKeysByUser :: "store \<Rightarrow> string \<Rightarrow> keySummary list" where
  "getApiKeysByUser s userId' =
     map (\<lambda>k. \<lparr>id_s = id_k k, name_s = name k, createdAt_s = createdAt_k k,
               lastUsed_s = lastUsed k, usageCount_s = usageCount k\<rparr>)
       (filter (\<lambda>k. userId k = userId' \<and> isActive_k k) (apiKeys s))"

definition revokeApiKey ::
  "store \<Rightarrow> string \<Rightarrow> string \<Rightarrow> string \<Rightarrow> (error + bool) \<times> store" where
  "revokeApiKey s keyId userId' now =
     (case findIndex (\<lambda>k. id_k k = keyId \<and> userId k = userId') (apiKeys s) of
        None \<Rightarrow> (Inl ApiKeyNotFound, s)
      | Some keyIndex \<Rightarrow>
          (Inr True,
           s\<lparr>apiKeys := (apiKeys s)[keyIndex :=
                (apiKeys s ! keyIndex)\<lparr>isActive_k := False, revokedAt := Some now\<rparr>]\<rparr>))"

subsection \<open>Usage\<close>

text \<open>\<^verbatim>\<open>updateUserUsage(userId)\<close>; \<open>today\<close> is \<^verbatim>\<open>new Date().toDateString()\<close>.\<close>

definition updateUserUsage :: "store \<Rightarrow> string \<Rightarrow> string \<Rightarrow> store" where
  "updateUserUsage s userId' today =
     (case findIndex (\<lambda>u. id_u u = userId') (users s) of
        None \<Rightarrow> s
      | Some userIndex \<Rightarrow>
          (let u = users s ! userIndex;
               u1 = (if lastResetDate u \<noteq> Some today
                     then u\<lparr>usageToday := 0, lastResetDate := Some today\<rparr> else u);
               u2 = u1\<lparr>usageToday := usageToday u1 + 1\<rparr>
           in s\<lparr>users := (users s)[userIndex := u2]\<rparr>))"

text \<open>\<^verbatim>\<open>logApiUsage(apiKey, endpoint, data = {})\<close>: \<open>now\<close> stamps the entry, \<open>nowV\<close> is
  the time of the call of \<^verbatim>\<open>validateApiKey\<close> inside, \<open>today\<close> the day
  \<^verbatim>\<open>updateUserUsage\<close> sees. The presented key is a string.\<close>

definition mkLogEntry :: "string \<Rightarrow> string \<Rightarrow> logData \<Rightarrow> string \<Rightarrow> string \<Rightarrow> logEntry" where
  "mkLogEntry apiKey endpoint' dat uuid now =
     \<lparr>id_l = uuid, apiKey_l = take 8 apiKey @ ''...'', endpoint = endpoint',
      timestamp = now, data_l = dat, ip = orElse (d_ip dat) ''unknown'',
      userAgent = orElse (d_userAgent dat) ''unknown''\<rparr>"

definition logApiUsage ::
  "(string \<Rightarrow> string \<Rightarrow> bool) \<Rightarrow> store \<Rightarrow> string \<Rightarrow> string \<Rightarrow> logData \<Rightarrow> string \<Rightarrow> string
    \<Rightarrow> string \<Rightarrow> string \<Rightarrow> logEntry \<times> store" where
  "logApiUsage cmp s apiKey endpoint' dat uuid now nowV today =
     (let logEntry = mkLogEntry apiKey endpoint' dat uuid now;
          logs1 = logEntry # logs s;
          logs2 = (if length logs1 > 1000 then take 1000 logs1 else logs1);
          s1 = s\<lparr>logs := logs2\<rparr>
      in case validateApiKey cmp s1 apiKey nowV of
           (Valid keyData, s2) \<Rightarrow> (logEntry, updateUserUsage s2 (v_userId keyData) today)
         | (Invalid, s2) \<Rightarrow> (logEntry, s2))"

record usageStats =
  totalRequests :: nat
  todayRequests :: nat
  dailyLimit :: nat
  usageToday_r :: nat
  lastRequest :: "string option"

text \<open>\<^verbatim>\<open>getUserUsage(userId)\<close>: \<open>toDateString\<close> is
  \<^verbatim>\<open>new Date(_).toDateString()\<close> on a time stamp, in the host's time zone.\<close>

definition getUserUsage ::
  "(string \<Rightarrow> string) \<Rightarrow> store \<Rightarrow> string \<Rightarrow> string \<Rightarrow> usageStats option" where
  "getUserUsage toDateString s userId' today =
     (case List.find (\<lambda>u. id_u u = userId') (users s) of
        None \<Rightarrow> None
      | Some user \<Rightarrow>
          (let userApiKeys = map key (filter (\<lambda>k. userId k = userId') (apiKeys s));
               userLogs = filter (\<lambda>log.
                   list_ex (\<lambda>key. startsWith (apiKey_l log) (take 8 key)) userApiKeys)
                 (logs s);
               todayLogs = filter (\<lambda>log. toDateString (timestamp log) = today) userLogs
           in Some \<lparr>totalRequests = length userLogs,
                    todayRequests = length todayLogs,
                    dailyLimit = (if apiLimit user = 0 then 1000 else apiLimit user),
                    usageToday_r = usageToday user,
                    lastRequest = (case userLogs of [] \<Rightarrow> None
                       | l # _ \<Rightarrow> if timestamp l = [] then None
                                  else Some (timestamp l))\<rparr>))"

section \<open>The middleware \<^verbatim>\<open>authenticateApiKey\<close> of \<^verbatim>\<open>src/middleware/auth.js\<close>\<close>

text \<open>The three places a key is read from, each a string or missing.\<close>

record request =
  header_x_api_key :: "string option"
  query_apiKey :: "string option"
  body_apiKey :: "string option"

text \<open>\<^verbatim>\<open>a || b || c\<close> followed by \<^verbatim>\<open>if (!apiKey)\<close>: the first value that is a
  non-empty string, if there is one.\<close>

fun firstTruthy :: "string option list \<Rightarrow> string option" where
  "firstTruthy [] = None"
| "firstTruthy (None # xs) = firstTruthy xs"
| "firstTruthy (Some v # xs) = (if v = [] then firstTruthy xs else Some v)"

text \<open>Either a response with a status and an error message, or the call of
  \<^verbatim>\<open>next()\<close> with what was attached to the request (\<^verbatim>\<open>req.user\<close>, \<^verbatim>\<open>req.apiKey\<close>,
  \<^verbatim>\<open>req.apiKeyData\<close>). The \<^verbatim>\<open>catch\<close> branch (status 500) is not reached: nothing the
  model runs inside the \<^verbatim>\<open>try\<close> throws.\<close>

datatype authResult =
  Rejected nat string
| Next "userInfo option" string validInfo

definition authenticateApiKey ::
  "(string \<Rightarrow> string \<Rightarrow> bool) \<Rightarrow> store \<Rightarrow> request \<Rightarrow> string \<Rightarrow> authResult \<times> store" where
  "authenticateApiKey cmp s req now =
     (case firstTruthy [header_x_api_key req, query_apiKey req, body_apiKey req] of
        None \<Rightarrow> (Rejected 401 ''API key is required'', s)
      | Some apiKey \<Rightarrow>
          (case validateApiKey cmp s apiKey now of
             (Invalid, s') \<Rightarrow> (Rejected 401 ''Invalid or expired API key'', s')
           | (Valid validation, s') \<Rightarrow>
               (if (case v_user validation of None \<Rightarrow> False
                    | Some u \<Rightarrow> usageToday u \<ge> apiLimit u)
                then (Rejected 429 ''Daily API limit exceeded'', s')
                else (Next (v_user validation) apiKey validation, s'))))"

section \<open>A request that is admitted and recorded\<close>

text \<open>
  \<^verbatim>\<open>src/api/index.js\<close> mounts the routers behind the middleware
  (\<^verbatim>\<open>app.use('/api/tools', apiLimiter, authenticateApiKey, toolsRoutes)\<close>) and a handler
  records the request with \<^verbatim>\<open>db.logApiUsage(apiKey, '...')\<close>, where \<^verbatim>\<open>apiKey\<close> is the
  field of the body (or of the query) of the same request. A \<open>call\<close> holds what one such
  request brings: the key in the body, the endpoint name, and what the clock and
  \<^verbatim>\<open>uuidv4\<close> give while it is served. \<open>admitAndRecord\<close> runs the middleware and, when it
  calls \<^verbatim>\<open>next()\<close>, the handler's \<^verbatim>\<open>logApiUsage\<close> to its end; \<open>requestSeq\<close> serves a list
  of requests one after the other.
\<close>

record call =
  c_apiKey :: string
  c_endpoint :: string
  c_data :: logData
  c_uuid :: string
  c_nowAuth :: string
  c_now :: string
  c_nowV :: string
  c_today :: string

definition admitAndRecord ::
  "(string \<Rightarrow> string \<Rightarrow> bool) \<Rightarrow> store \<Rightarrow> call \<Rightarrow> authResult \<times> store" where
  "admitAndRecord cmp s c =
     (case authenticateApiKey cmp s
             \<lparr>header_x_api_key = None, query_apiKey = None, body_apiKey = Some (c_apiKey c)\<rparr>
             (c_nowAuth c) of
        (Rejected status msg, s1) \<Rightarrow> (Rejected status msg, s1)
      | (Next u apiKey v, s1) \<Rightarrow>
          (Next u apiKey v,
           snd (logApiUsage cmp s1 apiKey (c_endpoint c) (c_data c) (c_uuid c) (c_now c)
                  (c_nowV c) (c_today c))))"

fun requestSeq :: "(string \<Rightarrow> string \<Rightarrow> bool) \<Rightarrow> store \<Rightarrow> call list \<Rightarrow> store" where
  "requestSeq cmp s [] = s"
| "requestSeq cmp s (c # cs) = requestSeq cmp (snd (admitAndRecord cmp s c)) cs"

text \<open>The entry \<^verbatim>\<open>logApiUsage\<close> makes for a request, and a list of calls of
  \<^verbatim>\<open>logApiUsage\<close> run one after the other.\<close>

definition callEntry :: "call \<Rightarrow> logEntry" where
  "callEntry c = mkLogEntry (c_apiKey c) (c_endpoint c) (c_data c) (c_uuid c) (c_now c)"

fun logApiUsageSeq :: "(string \<Rightarrow> string \<Rightarrow> bool) \<Rightarrow> store \<Rightarrow> call list \<Rightarrow> store" where
  "logApiUsageSeq cmp s [] = s"
| "logApiUsageSeq cmp s (c # cs) =
     logApiUsageSeq cmp
       (snd (logApiUsage cmp s (c_apiKey c) (c_endpoint c) (c_data c) (c_uuid c) (c_now c)
               (c_nowV c) (c_today c))) cs"

section \<open>Concrete stores\<close>

text \<open>A stand-in for the two bcryptjs primitives, used only to run the model on
  concrete stores: the hash is the prefix of a bcrypt hash with cost 10 followed by
  the text, and the comparison recomputes it.\<close>

definition toyHash :: "string \<Rightarrow> string" where
  "toyHash k = ''$2a$10$'' @ k"

definition toyCompare :: "string \<Rightarrow> string \<Rightarrow> bool" where
  "toyCompare k h = (h = toyHash k)"

definition alice :: user where
  "alice = \<lparr>id_u = ''u1'', username = ''alice'', email = ''alice@x.com'', role = ''user'',
            createdAt_u = ''2026-11-02T08:00:00.000Z'', lastLogin = None,
            isActive_u = True, apiLimit = 2, usageToday = 0, lastResetDate = None,
            password = toyHash ''secret1''\<rparr>"

definition aliceKey :: apiKeyRec where
  "aliceKey = \<lparr>id_k = ''k1'', userId = ''u1'', name = ''default'',
               key = toyHash ''shd_0123'', plainKey = ''shd_0123'',
               createdAt_k = ''2026-11-02T08:01:00.000Z'', lastUsed = None,
               usageCount = 0, isActive_k = True, rateLimit = 100, endpoints = [''*''],
               revokedAt = None\<rparr>"

definition store0 :: store where
  "store0 = \<lparr>users = [alice], apiKeys = [aliceKey], logs = []\<rparr>"

text \<open>The store after Alice's key was revoked on the second of November.\<close>

definition revokedStore :: store where
  "revokedStore = store0\<lparr>apiKeys := [aliceKey\<lparr>isActive_k := False,
      revokedAt := Some ''2026-11-02T10:00:00.000Z''\<rparr>]\<rparr>"

text \<open>A store with two key records that have the same identifier and the same owner.\<close>

definition twinStore :: store where
  "twinStore = store0\<lparr>apiKeys := [aliceKey, aliceKey\<lparr>name := ''twin''\<rparr>]\<rparr>"

text \<open>A request with Alice's key in its body, and two such requests as they are served
  on the third of November.\<close>

definition aliceRequest :: request where
  "aliceRequest = \<lparr>header_x_api_key = None, query_apiKey = None,
                    body_apiKey = Some ''shd_0123''\<rparr>"

definition call1 :: call where
  "call1 = \<lparr>c_apiKey = ''shd_0123'', c_endpoint = ''qrcode_generate'',
            c_data = \<lparr>d_ip = None, d_userAgent = None\<rparr>, c_uuid = ''l1'',
            c_nowAuth = ''2026-11-03T09:00:00.000Z'', c_now = ''2026-11-03T09:00:00.100Z'',
            c_nowV = ''2026-11-03T09:00:00.200Z'', c_today = ''Tue Nov 03 2026''\<rparr>"

definition call2 :: call where
  "call2 = \<lparr>c_apiKey = ''shd_0123'', c_endpoint = ''shorturl_create'',
            c_data = \<lparr>d_ip = None, d_userAgent = None\<rparr>, c_uuid = ''l2'',
            c_nowAuth = ''2026-11-03T10:00:00.000Z'', c_now = ''2026-11-03T10:00:00.100Z'',
            c_nowV = ''2026-11-03T10:00:00.200Z'', c_today = ''Tue Nov 03 2026''\<rparr>"

text \<open>Alice with a limit of 1000 and five requests counted on the second of November.\<close>

definition aliceYesterday :: user where
  "aliceYesterday = alice\<lparr>apiLimit := 1000, usageToday := 5,
                          lastResetDate := Some ''Mon Nov 02 2026''\<rparr>"

definition storeYesterday :: store where
  "storeYesterday = store0\<lparr>users := [aliceYesterday]\<rparr>"

text \<open>Alice with her limit of two requests reached on the second of November.\<close>

definition aliceExhausted :: user where
  "aliceExhausted = alice\<lparr>usageToday := 2, lastResetDate := Some ''Mon Nov 02 2026''\<rparr>"

definition storeExhausted :: store where
  "storeExhausted = store0\<lparr>users := [aliceExhausted]\<rparr>"

text \<open>Requests that differ in the identifier of their log entry.\<close>

definition numberedCall :: "nat \<Rightarrow> call" where
  "numberedCall n = call1\<lparr>c_uuid := replicate n (CHR ''i'')\<rparr>"

text \<open>A stand-in for \<^verbatim>\<open>new Date(_).toDateString()\<close> on the two days used here, and a
  store whose key record holds a hash in the format of bcrypt.\<close>

definition toyDateString :: "string \<Rightarrow> string" where
  "toyDateString ts =
     (if take 10 ts = ''2026-11-03'' then ''Tue Nov 03 2026''
      else if take 10 ts = ''2026-11-02'' then ''Mon Nov 02 2026'' else ''Invalid Date'')"

definition bcryptStore :: store where
  "bcryptStore = store0\<lparr>apiKeys :=
     [aliceKey\<lparr>key := ''$2a$10$N9qo8uLOickgx2ZMRZoMyeIjZAgcfl7p92ldGxad68LJZdL17lhWy''\<rparr>]\<rparr>"

section \<open>Facts about the helpers\<close>

lemma findIndex_None: "findIndex p xs = None \<longleftrightarrow> (\<forall>x\<in>set xs. \<not> p x)"
  by (induction xs) auto

lemma findIndex_Some:
  "findIndex p xs = Some i \<Longrightarrow> i < length xs \<and> p (xs ! i) \<and> (\<forall>j<i. \<not> p (xs ! j))"
proof (induction xs arbitrary: i)
  case Nil
  then show ?case by simp
next
  case (Cons x xs)
  show ?case
  proof (cases "p x")
    case True
    with Cons.prems show ?thesis by simp
  next
    case False
    with Cons.prems obtain i' where i': "findIndex p xs = Some i'" "i = Suc i'"
      by auto
    from Cons.IH[OF i'(1)] False i'(2) show ?thesis
      by (auto simp: less_Suc_eq_0_disj)
  qed
qed

lemma findIndex_cong_map: "map p xs = map p ys \<Longrightarrow> findIndex p xs = findIndex p ys"
proof (induction xs arbitrary: ys)
  case Nil
  then show ?case by simp
next
  case (Cons x xs)
  then obtain y ys' where "ys = y # ys'" by (cases ys) auto
  with Cons show ?case by auto
qed

lemma find_findIndex: "List.find p xs = map_option (\<lambda>i. xs ! i) (findIndex p xs)"
  by (induction xs) (auto simp: option.map_comp comp_def)

text \<open>The loop of \<^verbatim>\<open>validateApiKey\<close> stops at the first index where the hash matches
  and the record is active, and changes the record at that index only.\<close>

lemma validateScan_findIndex:
  "validateScan cmp now k ks =
     (case findIndex (\<lambda>r. cmp k (key r) \<and> isActive_k r) ks of
        None \<Rightarrow> None
      | Some i \<Rightarrow>
          Some ((ks ! i)\<lparr>lastUsed := Some now, usageCount := usageCount (ks ! i) + 1\<rparr>,
                ks[i := (ks ! i)\<lparr>lastUsed := Some now,
                                  usageCount := usageCount (ks ! i) + 1\<rparr>]))"
  by (induction ks) (auto simp: Let_def split: option.splits)

lemma firstTruthy_nonempty: "firstTruthy xs = Some v \<Longrightarrow> v \<noteq> []"
  by (induction xs rule: firstTruthy.induct) (auto split: if_splits)

text \<open>Unfolding the model on the concrete stores.\<close>

lemmas concrete_defs = store0_def alice_def aliceKey_def toyCompare_def toyHash_def
  aliceRequest_def call1_def call2_def

lemmas run_defs = admitAndRecord_def authenticateApiKey_def validateApiKey_def getUserById_def
  logApiUsage_def updateUserUsage_def mkLogEntry_def orElse_def userInfo.truncate_def Let_def

section \<open>Registration\<close>

text \<open>
  Claim C6. \<^verbatim>\<open>createUser\<close> fails with the error \<^verbatim>\<open>User already exists\<close> whenever a
  stored user, active or not, already has the requested user name or the requested
  e-mail address, and in that case the three files are left as they were.
\<close>

theorem createUser_duplicate:
  "\<exists>u\<in>set (users s). email u = e \<or> username u = n \<Longrightarrow>
   createUser hsh s n e p uuid now = (Inl UserAlreadyExists, s)"
proof -
  assume "\<exists>u\<in>set (users s). email u = e \<or> username u = n"
  then have "List.find (\<lambda>u. email u = e \<or> username u = n) (users s) \<noteq> None"
    by (auto simp: find_None_iff)
  then show ?thesis
    by (auto simp: createUser_def)
qed

theorem createUser_duplicate_witness:
  "(\<exists>u\<in>set (users (store0\<lparr>users := [alice\<lparr>isActive_u := False\<rparr>]\<rparr>)).
      email u = ''bob@x.com'' \<or> username u = ''alice'') \<and>
   createUser toyHash (store0\<lparr>users := [alice\<lparr>isActive_u := False\<rparr>]\<rparr>)
       ''alice'' ''bob@x.com'' ''secret2'' ''u2'' ''2026-11-03T09:00:00.000Z'' =
     (Inl UserAlreadyExists, store0\<lparr>users := [alice\<lparr>isActive_u := False\<rparr>]\<rparr>)"
proof -
  have h: "\<exists>u\<in>set (users (store0\<lparr>users := [alice\<lparr>isActive_u := False\<rparr>]\<rparr>)).
      email u = ''bob@x.com'' \<or> username u = ''alice''"
    by (simp add: alice_def)
  show ?thesis
    using h createUser_duplicate [OF h] by simp
qed

section \<open>Validation and revocation of keys\<close>

lemma validateApiKey_Invalid_iff:
  "fst (validateApiKey cmp s k now) = Invalid \<longleftrightarrow>
     findIndex (\<lambda>r. cmp k (key r) \<and> isActive_k r) (apiKeys s) = None"
  by (simp add: validateApiKey_def validateScan_findIndex Let_def split: option.splits)

lemma validateApiKey_no_match:
  assumes "\<forall>r\<in>set (apiKeys s). cmp k (key r) \<longrightarrow> \<not> isActive_k r"
  shows "validateApiKey cmp s k now = (Invalid, s)"
proof -
  from assms have "findIndex (\<lambda>r. cmp k (key r) \<and> isActive_k r) (apiKeys s) = None"
    by (auto simp: findIndex_None)
  then show ?thesis
    by (simp add: validateApiKey_def validateScan_findIndex)
qed

lemma validateApiKey_Valid:
  assumes "validateApiKey cmp s k now = (Valid v, s')"
  shows "\<exists>i. findIndex (\<lambda>r. cmp k (key r) \<and> isActive_k r) (apiKeys s) = Some i \<and>
             v_userId v = userId (apiKeys s ! i) \<and> v_keyId v = id_k (apiKeys s ! i) \<and>
             v_user v = getUserById s (userId (apiKeys s ! i)) \<and>
             s' = s\<lparr>apiKeys := (apiKeys s)[i := (apiKeys s ! i)\<lparr>lastUsed := Some now,
                                  usageCount := usageCount (apiKeys s ! i) + 1\<rparr>]\<rparr>"
  using assms
  by (auto simp: validateApiKey_def validateScan_findIndex Let_def getUserById_def split: option.splits)

lemma validateApiKey_at:
  assumes "findIndex (\<lambda>r. cmp k (key r) \<and> isActive_k r) (apiKeys s) = Some i"
  shows "validateApiKey cmp s k now =
     (Valid \<lparr>v_userId = userId (apiKeys s ! i), v_keyId = id_k (apiKeys s ! i),
             v_user = getUserById s (userId (apiKeys s ! i)),
             v_permissions = endpoints (apiKeys s ! i), v_rateLimit = rateLimit (apiKeys s ! i)\<rparr>,
      s\<lparr>apiKeys := (apiKeys s)[i := (apiKeys s ! i)\<lparr>lastUsed := Some now,
                                  usageCount := usageCount (apiKeys s ! i) + 1\<rparr>]\<rparr>)"
  using assms
  by (simp add: validateApiKey_def validateScan_findIndex Let_def getUserById_def)

lemma findIndex_after_use:
  assumes "i < length ks"
  shows "findIndex (\<lambda>r. cmp k (key r) \<and> isActive_k r)
            (ks[i := (ks ! i)\<lparr>lastUsed := a, usageCount := b\<rparr>]) =
         findIndex (\<lambda>r. cmp k (key r) \<and> isActive_k r) ks"
proof (rule findIndex_cong_map)
  show "map (\<lambda>r. cmp k (key r) \<and> isActive_k r) (ks[i := (ks ! i)\<lparr>lastUsed := a, usageCount := b\<rparr>]) =
        map (\<lambda>r. cmp k (key r) \<and> isActive_k r) ks"
    using assms by (simp add: map_update list_update_same_conv)
qed

lemma revokeApiKey_deactivates:
  assumes rev: "revokeApiKey s keyId uid t = (Inr True, s')"
    and dist: "distinct (map id_k (apiKeys s))"
    and r: "r \<in> set (apiKeys s')" "id_k r = keyId"
  shows "\<not> isActive_k r"
proof -
  from rev obtain i where i: "findIndex (\<lambda>k. id_k k = keyId \<and> userId k = uid) (apiKeys s) = Some i"
    and s': "s' = s\<lparr>apiKeys := (apiKeys s)[i := (apiKeys s ! i)\<lparr>isActive_k := False,
                                                        revokedAt := Some t\<rparr>]\<rparr>"
    by (auto simp: revokeApiKey_def split: option.splits)
  from findIndex_Some[OF i] have il: "i < length (apiKeys s)" and iid: "id_k (apiKeys s ! i) = keyId"
    by auto
  from r(1) s' obtain j where j: "j < length (apiKeys s)"
    and rj: "r = ((apiKeys s)[i := (apiKeys s ! i)\<lparr>isActive_k := False, revokedAt := Some t\<rparr>]) ! j"
    by (auto simp: in_set_conv_nth)
  show ?thesis
  proof (cases "j = i")
    case True
    with rj il show ?thesis by simp
  next
    case False
    with rj have "r = apiKeys s ! j" by simp
    with r(2) iid j il have "map id_k (apiKeys s) ! j = map id_k (apiKeys s) ! i"
      by simp
    moreover have "j < length (map id_k (apiKeys s))" "i < length (map id_k (apiKeys s))"
      using j il by simp_all
    ultimately have "j = i"
      using dist nth_eq_iff_index_eq by blast
    with False show ?thesis by simp
  qed
qed

lemma revokeApiKey_keeps_hashes:
  assumes rev: "revokeApiKey s keyId uid t = (Inr True, s')"
    and r: "r \<in> set (apiKeys s')"
  shows "\<exists>r0\<in>set (apiKeys s). key r0 = key r \<and> id_k r0 = id_k r \<and> (isActive_k r \<longrightarrow> isActive_k r0)"
proof -
  from rev obtain i where i: "findIndex (\<lambda>k. id_k k = keyId \<and> userId k = uid) (apiKeys s) = Some i"
    and s': "s' = s\<lparr>apiKeys := (apiKeys s)[i := (apiKeys s ! i)\<lparr>isActive_k := False,
                                                        revokedAt := Some t\<rparr>]\<rparr>"
    by (auto simp: revokeApiKey_def split: option.splits)
  from findIndex_Some[OF i] have il: "i < length (apiKeys s)" by simp
  from r s' obtain j where j: "j < length (apiKeys s)"
    and rj: "r = ((apiKeys s)[i := (apiKeys s ! i)\<lparr>isActive_k := False, revokedAt := Some t\<rparr>]) ! j"
    by (auto simp: in_set_conv_nth)
  have "key (apiKeys s ! j) = key r \<and> id_k (apiKeys s ! j) = id_k r \<and> (isActive_k r \<longrightarrow> isActive_k (apiKeys s ! j))"
    using rj j il by (cases "j = i") auto
  with j show ?thesis using nth_mem by blast
qed

text \<open>
  Claim C4. \<^verbatim>\<open>validateApiKey\<close> fails closed. When the presented key matches no
  stored hash, or matches hashes of inactive records only, the result is
  \<^verbatim>\<open>{ valid: false }\<close>, a value with no other field, the same in both cases, nothing
  is written, and the middleware answers 401 with the one message
  \<^verbatim>\<open>Invalid or expired API key\<close>. In particular, after a successful \<^verbatim>\<open>revokeApiKey\<close>
  of the record a key resolves to (record identifiers being distinct, as fresh UUIDs
  are), validating that key gives \<^verbatim>\<open>{ valid: false }\<close>.
\<close>

theorem validateApiKey_fails_closed:
  "((\<forall>r\<in>set (apiKeys s). cmp k (key r) \<longrightarrow> \<not> isActive_k r) \<longrightarrow>
      validateApiKey cmp s k now = (Invalid, s) \<and>
      (firstTruthy [header_x_api_key req, query_apiKey req, body_apiKey req] = Some k \<longrightarrow>
         authenticateApiKey cmp s req now =
           (Rejected 401 ''Invalid or expired API key'', s))) \<and>
   (revokeApiKey s keyId uid t = (Inr True, s') \<and> distinct (map id_k (apiKeys s)) \<and>
    (\<forall>r\<in>set (apiKeys s). cmp k (key r) \<and> isActive_k r \<longrightarrow> id_k r = keyId) \<longrightarrow>
      validateApiKey cmp s' k now = (Invalid, s'))"
proof (intro conjI impI)
  assume a: "\<forall>r\<in>set (apiKeys s). cmp k (key r) \<longrightarrow> \<not> isActive_k r"
  then show v: "validateApiKey cmp s k now = (Invalid, s)"
    by (rule validateApiKey_no_match)
  assume "firstTruthy [header_x_api_key req, query_apiKey req, body_apiKey req] = Some k"
  with v show "authenticateApiKey cmp s req now = (Rejected 401 ''Invalid or expired API key'', s)"
    by (simp add: authenticateApiKey_def)
next
  assume a: "revokeApiKey s keyId uid t = (Inr True, s') \<and> distinct (map id_k (apiKeys s)) \<and>
    (\<forall>r\<in>set (apiKeys s). cmp k (key r) \<and> isActive_k r \<longrightarrow> id_k r = keyId)"
  have "\<forall>r\<in>set (apiKeys s'). cmp k (key r) \<longrightarrow> \<not> isActive_k r"
  proof (intro ballI impI notI)
    fix r assume r: "r \<in> set (apiKeys s')" "cmp k (key r)" "isActive_k r"
    from revokeApiKey_keeps_hashes[OF _ r(1)] a r(2,3)
    obtain r0 where "r0 \<in> set (apiKeys s)" "cmp k (key r0)" "isActive_k r0" "id_k r0 = id_k r"
      by fastforce
    with a have "id_k r = keyId" by auto
    with revokeApiKey_deactivates[OF _ _ r(1)] a r(3) show False by blast
  qed
  then show "validateApiKey cmp s' k now = (Invalid, s')"
    by (rule validateApiKey_no_match)
qed

theorem validateApiKey_fails_closed_witness:
  "fst (validateApiKey toyCompare store0 ''shd_0123'' ''2026-11-02T09:00:00.000Z'') \<noteq> Invalid \<and>
   validateApiKey toyCompare store0 ''garbage'' ''2026-11-03T09:00:00.000Z'' =
     (Invalid, store0) \<and>
   validateApiKey toyCompare revokedStore ''shd_0123'' ''2026-11-03T09:00:00.000Z'' =
     (Invalid, revokedStore) \<and>
   authenticateApiKey toyCompare revokedStore
       \<lparr>header_x_api_key = Some ''shd_0123'', query_apiKey = None, body_apiKey = None\<rparr>
       ''2026-11-03T09:00:00.000Z'' =
     (Rejected 401 ''Invalid or expired API key'', revokedStore) \<and>
   revokeApiKey store0 ''k1'' ''u1'' ''2026-11-02T10:00:00.000Z'' = (Inr True, revokedStore) \<and>
   validateApiKey toyCompare
       (snd (revokeApiKey store0 ''k1'' ''u1'' ''2026-11-02T10:00:00.000Z''))
       ''shd_0123'' ''2026-11-03T09:00:00.000Z'' =
     (Invalid, revokedStore)"
proof -
  have valid: "fst (validateApiKey toyCompare store0 ''shd_0123''
      ''2026-11-02T09:00:00.000Z'') \<noteq> Invalid"
    by (simp add: validateApiKey_def store0_def aliceKey_def toyCompare_def Let_def)
  have none: "\<forall>r\<in>set (apiKeys store0). toyCompare ''garbage'' (key r) \<longrightarrow> \<not> isActive_k r"
    by (simp add: store0_def aliceKey_def toyCompare_def toyHash_def)
  have inactive: "\<forall>r\<in>set (apiKeys revokedStore).
      toyCompare ''shd_0123'' (key r) \<longrightarrow> \<not> isActive_k r"
    by (simp add: revokedStore_def)
  have rev: "revokeApiKey store0 ''k1'' ''u1'' ''2026-11-02T10:00:00.000Z'' =
      (Inr True, revokedStore)"
    by (simp add: revokeApiKey_def revokedStore_def store0_def aliceKey_def)
  have dist: "distinct (map id_k (apiKeys store0))"
    by (simp add: store0_def)
  have only: "\<forall>r\<in>set (apiKeys store0).
      toyCompare ''shd_0123'' (key r) \<and> isActive_k r \<longrightarrow> id_k r = ''k1''"
    by (simp add: store0_def aliceKey_def)
  note a = validateApiKey_fails_closed [where s = store0 and cmp = toyCompare
      and k = "''garbage''" and now = "''2026-11-03T09:00:00.000Z''"]
  note b = validateApiKey_fails_closed [where s = revokedStore and cmp = toyCompare
      and k = "''shd_0123''" and now = "''2026-11-03T09:00:00.000Z''"
      and req = "\<lparr>header_x_api_key = Some ''shd_0123'', query_apiKey = None,
                   body_apiKey = None\<rparr>"]
  note c = validateApiKey_fails_closed [where s = store0 and cmp = toyCompare
      and k = "''shd_0123''" and now = "''2026-11-03T09:00:00.000Z''"
      and keyId = "''k1''" and uid = "''u1''" and t = "''2026-11-02T10:00:00.000Z''"
      and s' = revokedStore]
  from a none have 1: "validateApiKey toyCompare store0 ''garbage''
      ''2026-11-03T09:00:00.000Z'' = (Invalid, store0)"
    by blast
  from b inactive have 2: "validateApiKey toyCompare revokedStore ''shd_0123''
      ''2026-11-03T09:00:00.000Z'' = (Invalid, revokedStore)"
    and 3: "authenticateApiKey toyCompare revokedStore
       \<lparr>header_x_api_key = Some ''shd_0123'', query_apiKey = None, body_apiKey = None\<rparr>
       ''2026-11-03T09:00:00.000Z'' =
     (Rejected 401 ''Invalid or expired API key'', revokedStore)"
    by simp_all
  from c rev dist only have 4: "validateApiKey toyCompare revokedStore ''shd_0123''
      ''2026-11-03T09:00:00.000Z'' = (Invalid, revokedStore)"
    by blast
  from valid 1 2 3 4 rev show ?thesis
    by simp
qed

text \<open>
  Claim C8. Two calls of \<^verbatim>\<open>validateApiKey\<close> with the same valid key resolve to the same
  \<^verbatim>\<open>userId\<close> and \<^verbatim>\<open>keyId\<close>. The first call stamps \<^verbatim>\<open>lastUsed\<close> and counts
  \<^verbatim>\<open>usageCount\<close> up; between the calls the users and the log may change in any way
  (the usage counters of the user among them), the array of key records being the one
  the first call wrote.
\<close>

theorem validateApiKey_same_identity:
  assumes "validateApiKey cmp s k t1 = (Valid v1, s1)" and "apiKeys s2 = apiKeys s1"
  shows "\<exists>v2 s3. validateApiKey cmp s2 k t2 = (Valid v2, s3) \<and>
           v_userId v2 = v_userId v1 \<and> v_keyId v2 = v_keyId v1"
proof -
  from validateApiKey_Valid[OF assms(1)] obtain i where
    i: "findIndex (\<lambda>r. cmp k (key r) \<and> isActive_k r) (apiKeys s) = Some i"
    and v1: "v_userId v1 = userId (apiKeys s ! i)" "v_keyId v1 = id_k (apiKeys s ! i)"
    and s1: "s1 = s\<lparr>apiKeys := (apiKeys s)[i := (apiKeys s ! i)\<lparr>lastUsed := Some t1,
                                  usageCount := usageCount (apiKeys s ! i) + 1\<rparr>]\<rparr>"
    by blast
  from findIndex_Some[OF i] have il: "i < length (apiKeys s)" by simp
  from s1 assms(2) have k2: "apiKeys s2 = (apiKeys s)[i := (apiKeys s ! i)\<lparr>lastUsed := Some t1,
                                  usageCount := usageCount (apiKeys s ! i) + 1\<rparr>]"
    by simp
  have "findIndex (\<lambda>r. cmp k (key r) \<and> isActive_k r) (apiKeys s2) =
        findIndex (\<lambda>r. cmp k (key r) \<and> isActive_k r) (apiKeys s)"
    unfolding k2 by (rule findIndex_after_use[where cmp=cmp and k=k, OF il])
  with i have "findIndex (\<lambda>r. cmp k (key r) \<and> isActive_k r) (apiKeys s2) = Some i"
    by simp
  from validateApiKey_at[where cmp=cmp and k=k and s=s2 and now=t2, OF this] v1 il show ?thesis
    by (simp add: k2)
qed

theorem validateApiKey_same_identity_witness:
  "\<exists>v1 s1 v2 s3.
     validateApiKey toyCompare store0 ''shd_0123'' ''2026-11-03T09:00:00.000Z'' =
       (Valid v1, s1) \<and>
     validateApiKey toyCompare (updateUserUsage s1 ''u1'' ''Tue Nov 03 2026'') ''shd_0123''
         ''2026-11-03T09:00:01.000Z'' = (Valid v2, s3) \<and>
     v_userId v1 = ''u1'' \<and> v_keyId v1 = ''k1'' \<and>
     v_userId v2 = v_userId v1 \<and> v_keyId v2 = v_keyId v1"
proof -
  obtain v1 s1 where 1: "validateApiKey toyCompare store0 ''shd_0123''
      ''2026-11-03T09:00:00.000Z'' = (Valid v1, s1)"
    and ids: "v_userId v1 = ''u1''" "v_keyId v1 = ''k1''"
    by (simp add: validateApiKey_def store0_def aliceKey_def toyCompare_def Let_def)
  have 2: "apiKeys (updateUserUsage s1 ''u1'' ''Tue Nov 03 2026'') = apiKeys s1"
    by (simp add: updateUserUsage_def Let_def split: option.splits)
  from validateApiKey_same_identity [OF 1 2, of "''2026-11-03T09:00:01.000Z''"] 1 ids
  show ?thesis
    by blast
qed

text \<open>
  Claim C7, as the source has it. \<^verbatim>\<open>revokeApiKey\<close> looks the record up by its
  identifier and its owner and does not look at \<^verbatim>\<open>isActive\<close>: it fails with
  \<^verbatim>\<open>API key not found\<close> exactly when no record, active or not, has that identifier
  and that owner, and then nothing is written. Otherwise it returns \<^verbatim>\<open>true\<close>, and the
  first such record (no record before it has that identifier and that owner) is
  marked inactive and stamped with \<^verbatim>\<open>revokedAt\<close>, every other record staying as it
  is. No record is removed: the array keeps its length and its identifiers.
\<close>

theorem revokeApiKey_spec:
  "(fst (revokeApiKey s keyId uid now) = Inl ApiKeyNotFound \<longleftrightarrow>
      \<not> (\<exists>k\<in>set (apiKeys s). id_k k = keyId \<and> userId k = uid)) \<and>
   (fst (revokeApiKey s keyId uid now) = Inl ApiKeyNotFound \<longrightarrow>
      snd (revokeApiKey s keyId uid now) = s) \<and>
   (fst (revokeApiKey s keyId uid now) \<noteq> Inl ApiKeyNotFound \<longrightarrow>
      fst (revokeApiKey s keyId uid now) = Inr True \<and>
      (\<exists>i<length (apiKeys s).
         id_k (apiKeys s ! i) = keyId \<and> userId (apiKeys s ! i) = uid \<and>
         (\<forall>j<i. \<not> (id_k (apiKeys s ! j) = keyId \<and> userId (apiKeys s ! j) = uid)) \<and>
         snd (revokeApiKey s keyId uid now) =
           s\<lparr>apiKeys := (apiKeys s)[i := (apiKeys s ! i)\<lparr>isActive_k := False,
                                                        revokedAt := Some now\<rparr>]\<rparr>)) \<and>
   length (apiKeys (snd (revokeApiKey s keyId uid now))) = length (apiKeys s) \<and>
   map id_k (apiKeys (snd (revokeApiKey s keyId uid now))) = map id_k (apiKeys s)"
proof (cases "findIndex (\<lambda>k. id_k k = keyId \<and> userId k = uid) (apiKeys s)")
  case None
  then have "\<not> (\<exists>k\<in>set (apiKeys s). id_k k = keyId \<and> userId k = uid)"
    by (simp add: findIndex_None)
  with None show ?thesis
    by (simp add: revokeApiKey_def)
next
  case (Some i)
  from findIndex_Some[OF Some]
  have i: "i < length (apiKeys s)" "id_k (apiKeys s ! i) = keyId" "userId (apiKeys s ! i) = uid"
    and first: "\<forall>j<i. \<not> (id_k (apiKeys s ! j) = keyId \<and> userId (apiKeys s ! j) = uid)"
    by auto
  then have ex: "\<exists>k\<in>set (apiKeys s). id_k k = keyId \<and> userId k = uid"
    using nth_mem by blast
  have ids: "map id_k ((apiKeys s)[i := (apiKeys s ! i)\<lparr>isActive_k := False,
                 revokedAt := Some now\<rparr>]) = map id_k (apiKeys s)"
    using i(1) by (simp add: map_update list_update_same_conv)
  have res: "revokeApiKey s keyId uid now =
      (Inr True, s\<lparr>apiKeys := (apiKeys s)[i := (apiKeys s ! i)\<lparr>isActive_k := False,
                                                        revokedAt := Some now\<rparr>]\<rparr>)"
    using Some by (simp add: revokeApiKey_def)
  have found: "\<exists>i<length (apiKeys s).
         id_k (apiKeys s ! i) = keyId \<and> userId (apiKeys s ! i) = uid \<and>
         (\<forall>j<i. \<not> (id_k (apiKeys s ! j) = keyId \<and> userId (apiKeys s ! j) = uid)) \<and>
         snd (revokeApiKey s keyId uid now) =
           s\<lparr>apiKeys := (apiKeys s)[i := (apiKeys s ! i)\<lparr>isActive_k := False,
                                                        revokedAt := Some now\<rparr>]\<rparr>"
    using i first res by (intro exI [of _ i]) simp
  show ?thesis
    using ex ids found i(1) by (simp add: res)
qed


theorem revokeApiKey_spec_witness:
  "fst (revokeApiKey store0 ''k9'' ''u1'' ''2026-11-02T10:00:00.000Z'') = Inl ApiKeyNotFound \<and>
   snd (revokeApiKey store0 ''k9'' ''u1'' ''2026-11-02T10:00:00.000Z'') = store0 \<and>
   fst (revokeApiKey store0 ''k1'' ''u1'' ''2026-11-02T10:00:00.000Z'') = Inr True \<and>
   snd (revokeApiKey store0 ''k1'' ''u1'' ''2026-11-02T10:00:00.000Z'') = revokedStore \<and>
   map id_k (apiKeys (snd (revokeApiKey store0 ''k1'' ''u1'' ''2026-11-02T10:00:00.000Z''))) =
     [''k1''] \<and>
   map isActive_k (apiKeys twinStore) = [True, True] \<and>
   map isActive_k (apiKeys (snd (revokeApiKey twinStore ''k1'' ''u1''
       ''2026-11-02T10:00:00.000Z''))) = [False, True]"
proof -
  have absent: "\<not> (\<exists>k\<in>set (apiKeys store0). id_k k = ''k9'' \<and> userId k = ''u1'')"
    by (simp add: store0_def aliceKey_def)
  have present: "\<exists>k\<in>set (apiKeys store0). id_k k = ''k1'' \<and> userId k = ''u1''"
    by (simp add: store0_def aliceKey_def)
  have twins: "\<exists>k\<in>set (apiKeys twinStore). id_k k = ''k1'' \<and> userId k = ''u1''"
    and head: "id_k (apiKeys twinStore ! 0) = ''k1'' \<and> userId (apiKeys twinStore ! 0) = ''u1''"
    and before: "map isActive_k (apiKeys twinStore) = [True, True]"
    by (simp_all add: twinStore_def store0_def aliceKey_def)
  note a = revokeApiKey_spec [of store0 "''k9''" "''u1''" "''2026-11-02T10:00:00.000Z''"]
  note b = revokeApiKey_spec [of store0 "''k1''" "''u1''" "''2026-11-02T10:00:00.000Z''"]
  note c = revokeApiKey_spec [of twinStore "''k1''" "''u1''" "''2026-11-02T10:00:00.000Z''"]
  from a absent have 1:
    "fst (revokeApiKey store0 ''k9'' ''u1'' ''2026-11-02T10:00:00.000Z'') = Inl ApiKeyNotFound"
    "snd (revokeApiKey store0 ''k9'' ''u1'' ''2026-11-02T10:00:00.000Z'') = store0"
    by simp_all
  from b present have 2:
    "fst (revokeApiKey store0 ''k1'' ''u1'' ''2026-11-02T10:00:00.000Z'') = Inr True"
    "map id_k (apiKeys (snd (revokeApiKey store0 ''k1'' ''u1''
        ''2026-11-02T10:00:00.000Z''))) = map id_k (apiKeys store0)"
    by simp_all
  have 3: "snd (revokeApiKey store0 ''k1'' ''u1'' ''2026-11-02T10:00:00.000Z'') = revokedStore"
    by (simp add: revokeApiKey_def revokedStore_def store0_def aliceKey_def)
  from c twins obtain i where
    first: "\<forall>j<i. \<not> (id_k (apiKeys twinStore ! j) = ''k1'' \<and>
                      userId (apiKeys twinStore ! j) = ''u1'')"
    and res: "snd (revokeApiKey twinStore ''k1'' ''u1'' ''2026-11-02T10:00:00.000Z'') =
        twinStore\<lparr>apiKeys := (apiKeys twinStore)[i := (apiKeys twinStore ! i)
           \<lparr>isActive_k := False, revokedAt := Some ''2026-11-02T10:00:00.000Z''\<rparr>]\<rparr>"
    by auto
  have "i = 0"
  proof (rule ccontr)
    assume "i \<noteq> 0"
    then have "0 < i" by simp
    with first head show False by blast
  qed
  with res have 4: "map isActive_k (apiKeys (snd (revokeApiKey twinStore ''k1'' ''u1''
       ''2026-11-02T10:00:00.000Z''))) = [False, True]"
    by (simp add: twinStore_def store0_def aliceKey_def)
  from 1 2 3 4 before show ?thesis
    by (simp add: store0_def aliceKey_def)
qed

text \<open>
  Claim C7, as stated, asks for the failure whenever no active record has that
  identifier and that owner. On a store whose only record with identifier \<^verbatim>\<open>k1\<close> is
  already inactive the call succeeds and stamps \<^verbatim>\<open>revokedAt\<close> again.
\<close>

theorem revokeApiKey_inactive_counterexample:
  "map isActive_k (apiKeys revokedStore) = [False] \<and>
   revokeApiKey revokedStore ''k1'' ''u1'' ''2026-11-03T09:00:00.000Z'' =
     (Inr True, revokedStore\<lparr>apiKeys := [aliceKey\<lparr>isActive_k := False,
        revokedAt := Some ''2026-11-03T09:00:00.000Z''\<rparr>]\<rparr>)"
  by (simp add: revokedStore_def store0_def aliceKey_def revokeApiKey_def)


section \<open>The daily quota\<close>

text \<open>One step of each operation, at the index where the key and the user are found.\<close>

lemma getUserById_findIndex:
  "getUserById s uid =
     map_option (\<lambda>j. userInfo.truncate (users s ! j)) (findIndex (\<lambda>u. id_u u = uid) (users s))"
  by (simp add: getUserById_def find_findIndex option.map_comp comp_def)

lemma authenticateApiKey_at:
  assumes key: "firstTruthy [header_x_api_key req, query_apiKey req, body_apiKey req] = Some k"
    and i: "findIndex (\<lambda>r. cmp k (key r) \<and> isActive_k r) (apiKeys s) = Some i"
    and j: "findIndex (\<lambda>u. id_u u = userId (apiKeys s ! i)) (users s) = Some j"
  shows "authenticateApiKey cmp s req now =
     (if apiLimit (users s ! j) \<le> usageToday (users s ! j)
      then Rejected 429 ''Daily API limit exceeded''
      else Next (Some (userInfo.truncate (users s ! j))) k
             \<lparr>v_userId = userId (apiKeys s ! i), v_keyId = id_k (apiKeys s ! i),
              v_user = Some (userInfo.truncate (users s ! j)),
              v_permissions = endpoints (apiKeys s ! i),
              v_rateLimit = rateLimit (apiKeys s ! i)\<rparr>,
      s\<lparr>apiKeys := (apiKeys s)[i := (apiKeys s ! i)\<lparr>lastUsed := Some now,
                                  usageCount := usageCount (apiKeys s ! i) + 1\<rparr>]\<rparr>)"
proof -
  have u: "getUserById s (userId (apiKeys s ! i)) = Some (userInfo.truncate (users s ! j))"
    by (simp add: getUserById_findIndex j)
  show ?thesis
    unfolding authenticateApiKey_def key
    by (simp add: validateApiKey_at[where cmp=cmp and k=k and s=s and now=now, OF i] u
        userInfo.truncate_def)
qed

lemma updateUserUsage_at:
  assumes "findIndex (\<lambda>u. id_u u = uid) (users s) = Some j"
  shows "updateUserUsage s uid today =
     s\<lparr>users := (users s)[j :=
        (if lastResetDate (users s ! j) = Some today
         then (users s ! j)\<lparr>usageToday := usageToday (users s ! j) + 1\<rparr>
         else (users s ! j)\<lparr>lastResetDate := Some today, usageToday := 1\<rparr>)]\<rparr>"
  using assms by (simp add: updateUserUsage_def Let_def)

lemma logApiUsage_logs:
  "fst (logApiUsage cmp s k ep dat uuid now nowV today) = mkLogEntry k ep dat uuid now \<and>
   logs (snd (logApiUsage cmp s k ep dat uuid now nowV today)) =
     take 1000 (mkLogEntry k ep dat uuid now # logs s)"
  by (auto simp: logApiUsage_def Let_def validateApiKey_def updateUserUsage_def
      split: option.splits validation.splits prod.splits)

lemma logApiUsage_at:
  assumes i: "findIndex (\<lambda>r. cmp k (key r) \<and> isActive_k r) (apiKeys s) = Some i"
    and j: "findIndex (\<lambda>u. id_u u = userId (apiKeys s ! i)) (users s) = Some j"
  shows "snd (logApiUsage cmp s k ep dat uuid now nowV today) =
     s\<lparr>users := (users s)[j :=
        (if lastResetDate (users s ! j) = Some today
         then (users s ! j)\<lparr>usageToday := usageToday (users s ! j) + 1\<rparr>
         else (users s ! j)\<lparr>lastResetDate := Some today, usageToday := 1\<rparr>)],
       apiKeys := (apiKeys s)[i := (apiKeys s ! i)\<lparr>lastUsed := Some nowV,
                                  usageCount := usageCount (apiKeys s ! i) + 1\<rparr>],
       logs := take 1000 (mkLogEntry k ep dat uuid now # logs s)\<rparr>"
proof -
  let ?s1 = "s\<lparr>logs := take 1000 (mkLogEntry k ep dat uuid now # logs s)\<rparr>"
  have i1: "findIndex (\<lambda>r. cmp k (key r) \<and> isActive_k r) (apiKeys ?s1) = Some i"
    using i by simp
  let ?s2 = "?s1\<lparr>apiKeys := (apiKeys s)[i := (apiKeys s ! i)\<lparr>lastUsed := Some nowV,
                                  usageCount := usageCount (apiKeys s ! i) + 1\<rparr>]\<rparr>"
  have j2: "findIndex (\<lambda>u. id_u u = userId (apiKeys s ! i)) (users ?s2) = Some j"
    using j by simp
  have s1eq: "(if 1000 < length (mkLogEntry k ep dat uuid now # logs s)
               then take 1000 (mkLogEntry k ep dat uuid now # logs s)
               else mkLogEntry k ep dat uuid now # logs s) =
              take 1000 (mkLogEntry k ep dat uuid now # logs s)"
    by simp
  show ?thesis
    unfolding logApiUsage_def Let_def s1eq
    using validateApiKey_at[where cmp=cmp and k=k and s="?s1" and now=nowV, OF i1]
      updateUserUsage_at[where s="?s2" and uid="userId (apiKeys s ! i)" and today=today, OF j2]
    by simp
qed

lemma logApiUsage_valid:
  assumes i: "findIndex (\<lambda>r. cmp k (key r) \<and> isActive_k r) (apiKeys s) = Some i"
  shows "snd (logApiUsage cmp s k ep dat uuid now nowV today) =
     updateUserUsage
       (s\<lparr>logs := take 1000 (mkLogEntry k ep dat uuid now # logs s),
          apiKeys := (apiKeys s)[i := (apiKeys s ! i)\<lparr>lastUsed := Some nowV,
                                  usageCount := usageCount (apiKeys s ! i) + 1\<rparr>]\<rparr>)
       (userId (apiKeys s ! i)) today"
proof -
  let ?s1 = "s\<lparr>logs := take 1000 (mkLogEntry k ep dat uuid now # logs s)\<rparr>"
  have i1: "findIndex (\<lambda>r. cmp k (key r) \<and> isActive_k r) (apiKeys ?s1) = Some i"
    using i by simp
  have s1eq: "(if 1000 < length (mkLogEntry k ep dat uuid now # logs s)
               then take 1000 (mkLogEntry k ep dat uuid now # logs s)
               else mkLogEntry k ep dat uuid now # logs s) =
              take 1000 (mkLogEntry k ep dat uuid now # logs s)"
    by simp
  show ?thesis
    unfolding logApiUsage_def Let_def s1eq
    using validateApiKey_at[where cmp=cmp and k=k and s="?s1" and now=nowV, OF i1]
    by simp
qed

lemma findIndex_users_update:
  assumes "j < length us" "id_u u' = id_u (us ! j)"
  shows "findIndex (\<lambda>u. id_u u = uid) (us[j := u']) = findIndex (\<lambda>u. id_u u = uid) us"
proof (rule findIndex_cong_map)
  show "map (\<lambda>u. id_u u = uid) (us[j := u']) = map (\<lambda>u. id_u u = uid) us"
    using assms by (simp add: map_update list_update_same_conv)
qed

lemma admitAndRecord_step:
  assumes k: "k \<noteq> []" "c_apiKey c = k"
    and i: "findIndex (\<lambda>r. cmp k (key r) \<and> isActive_k r) (apiKeys s) = Some i"
    and j: "findIndex (\<lambda>u. id_u u = userId (apiKeys s ! i)) (users s) = Some j"
  shows "findIndex (\<lambda>r. cmp k (key r) \<and> isActive_k r)
           (apiKeys (snd (admitAndRecord cmp s c))) = Some i"
    and "userId (apiKeys (snd (admitAndRecord cmp s c)) ! i) = userId (apiKeys s ! i)"
    and "findIndex (\<lambda>u. id_u u = userId (apiKeys s ! i))
           (users (snd (admitAndRecord cmp s c))) = Some j"
    and "users (snd (admitAndRecord cmp s c)) =
          (if apiLimit (users s ! j) \<le> usageToday (users s ! j) then users s
           else (users s)[j :=
             (if lastResetDate (users s ! j) = Some (c_today c)
              then (users s ! j)\<lparr>usageToday := usageToday (users s ! j) + 1\<rparr>
              else (users s ! j)\<lparr>lastResetDate := Some (c_today c), usageToday := 1\<rparr>)])"
proof -
  let ?req = "\<lparr>header_x_api_key = None, query_apiKey = None, body_apiKey = Some (c_apiKey c)\<rparr>"
  let ?bump = "\<lambda>t. (apiKeys s)[i := (apiKeys s ! i)\<lparr>lastUsed := Some t,
                                  usageCount := usageCount (apiKeys s ! i) + 1\<rparr>]"
  let ?s1 = "s\<lparr>apiKeys := ?bump (c_nowAuth c)\<rparr>"
  from findIndex_Some[OF i] have il: "i < length (apiKeys s)" by simp
  from findIndex_Some[OF j] have jl: "j < length (users s)" by simp
  have ft: "firstTruthy [header_x_api_key ?req, query_apiKey ?req, body_apiKey ?req] = Some k"
    using k by simp
  note auth = authenticateApiKey_at[where cmp=cmp and k=k and s=s and req="?req"
      and now="c_nowAuth c", OF ft i j]
  have i1: "findIndex (\<lambda>r. cmp k (key r) \<and> isActive_k r) (apiKeys ?s1) = Some i"
    using findIndex_after_use[where cmp=cmp and k=k, OF il] i by simp
  have uid1: "userId (apiKeys ?s1 ! i) = userId (apiKeys s ! i)"
    using il by simp
  have j1: "findIndex (\<lambda>u. id_u u = userId (apiKeys ?s1 ! i)) (users ?s1) = Some j"
    using j il by simp
  note rec = logApiUsage_at[where cmp=cmp and k=k and s="?s1" and ep="c_endpoint c"
      and dat="c_data c" and uuid="c_uuid c" and now="c_now c" and nowV="c_nowV c"
      and today="c_today c", OF i1 j1]
  show "findIndex (\<lambda>r. cmp k (key r) \<and> isActive_k r)
           (apiKeys (snd (admitAndRecord cmp s c))) = Some i"
  proof (cases "apiLimit (users s ! j) \<le> usageToday (users s ! j)")
    case True
    with auth i1 show ?thesis by (simp add: admitAndRecord_def)
  next
    case False
    have "findIndex (\<lambda>r. cmp k (key r) \<and> isActive_k r)
       ((?bump (c_nowAuth c))[i := (?bump (c_nowAuth c) ! i)\<lparr>lastUsed := Some (c_nowV c),
           usageCount := usageCount (?bump (c_nowAuth c) ! i) + 1\<rparr>]) = Some i"
      using findIndex_after_use[where cmp=cmp and k=k and ks="?bump (c_nowAuth c)" and i=i] i1 il
      by simp
    with False auth rec show ?thesis by (simp add: admitAndRecord_def)
  qed
  show "userId (apiKeys (snd (admitAndRecord cmp s c)) ! i) = userId (apiKeys s ! i)"
    using auth rec il by (simp add: admitAndRecord_def)
  show us: "users (snd (admitAndRecord cmp s c)) =
          (if apiLimit (users s ! j) \<le> usageToday (users s ! j) then users s
           else (users s)[j :=
             (if lastResetDate (users s ! j) = Some (c_today c)
              then (users s ! j)\<lparr>usageToday := usageToday (users s ! j) + 1\<rparr>
              else (users s ! j)\<lparr>lastResetDate := Some (c_today c), usageToday := 1\<rparr>)])"
    using auth rec il by (simp add: admitAndRecord_def)
  show "findIndex (\<lambda>u. id_u u = userId (apiKeys s ! i))
           (users (snd (admitAndRecord cmp s c))) = Some j"
    unfolding us using j findIndex_users_update[OF jl] by simp
qed




text \<open>
  Claim C10, as the source has it. A request passes the middleware and is recorded by
  \<^verbatim>\<open>logApiUsage\<close> with the same key. Then \<^verbatim>\<open>usageCount\<close> of the key record is incremented
  by exactly 2, once by each call of \<^verbatim>\<open>validateApiKey\<close>. The counter \<^verbatim>\<open>usageToday\<close> of
  the owning user is incremented by exactly 1 when \<^verbatim>\<open>lastResetDate\<close> is the current
  day; otherwise \<^verbatim>\<open>updateUserUsage\<close> resets it first and it becomes 1, whatever it was.
  When no stored user owns the key, \<^verbatim>\<open>users.json\<close> is left as it is.
\<close>

theorem admitted_recorded_counts:
  assumes pass: "authenticateApiKey cmp s req t1 = (Next u k v, s1)"
    and rec: "logApiUsage cmp s1 k ep dat uuid t2 t3 today = (e, s2)"
  shows "\<exists>i. findIndex (\<lambda>r. cmp k (key r) \<and> isActive_k r) (apiKeys s) = Some i \<and>
     v_keyId v = id_k (apiKeys s ! i) \<and> v_userId v = userId (apiKeys s ! i) \<and>
     apiKeys s2 = (apiKeys s)[i := (apiKeys s ! i)\<lparr>lastUsed := Some t3,
                     usageCount := usageCount (apiKeys s ! i) + 2\<rparr>] \<and>
     (case findIndex (\<lambda>u. id_u u = v_userId v) (users s) of
        None \<Rightarrow> users s2 = users s
      | Some j \<Rightarrow> users s2 = (users s)[j :=
          (if lastResetDate (users s ! j) = Some today
           then (users s ! j)\<lparr>usageToday := usageToday (users s ! j) + 1\<rparr>
           else (users s ! j)\<lparr>lastResetDate := Some today, usageToday := 1\<rparr>)])"
proof -
  from pass have val: "validateApiKey cmp s k t1 = (Valid v, s1)"
    by (auto simp: authenticateApiKey_def split: option.splits prod.splits validation.splits
        if_splits)
  from validateApiKey_Valid[OF val] obtain i where
    i: "findIndex (\<lambda>r. cmp k (key r) \<and> isActive_k r) (apiKeys s) = Some i"
    and v: "v_userId v = userId (apiKeys s ! i)" "v_keyId v = id_k (apiKeys s ! i)"
    and s1: "s1 = s\<lparr>apiKeys := (apiKeys s)[i := (apiKeys s ! i)\<lparr>lastUsed := Some t1,
                                  usageCount := usageCount (apiKeys s ! i) + 1\<rparr>]\<rparr>"
    by blast
  from findIndex_Some[OF i] have il: "i < length (apiKeys s)" by simp
  have i1: "findIndex (\<lambda>r. cmp k (key r) \<and> isActive_k r) (apiKeys s1) = Some i"
    unfolding s1 using findIndex_after_use[where cmp=cmp and k=k, OF il] i by simp
  from logApiUsage_valid[where cmp=cmp and s=s1, OF i1] rec
  have s2: "s2 = updateUserUsage
       (s1\<lparr>logs := take 1000 (mkLogEntry k ep dat uuid t2 # logs s1),
          apiKeys := (apiKeys s1)[i := (apiKeys s1 ! i)\<lparr>lastUsed := Some t3,
                                  usageCount := usageCount (apiKeys s1 ! i) + 1\<rparr>]\<rparr>)
       (userId (apiKeys s1 ! i)) today"
    by (metis snd_conv)
  have keys: "apiKeys s2 = (apiKeys s)[i := (apiKeys s ! i)\<lparr>lastUsed := Some t3,
                     usageCount := usageCount (apiKeys s ! i) + 2\<rparr>]"
    unfolding s2 s1 using il
    by (simp add: updateUserUsage_def Let_def split: option.splits)
  have usr: "(case findIndex (\<lambda>u. id_u u = v_userId v) (users s) of
        None \<Rightarrow> users s2 = users s
      | Some j \<Rightarrow> users s2 = (users s)[j :=
          (if lastResetDate (users s ! j) = Some today
           then (users s ! j)\<lparr>usageToday := usageToday (users s ! j) + 1\<rparr>
           else (users s ! j)\<lparr>lastResetDate := Some today, usageToday := 1\<rparr>)])"
    unfolding s2 s1 v using il
    by (simp add: updateUserUsage_def Let_def split: option.splits)
  from i v keys usr show ?thesis by blast
qed

theorem admitted_recorded_counts_witness:
  "\<exists>u v s1 e s2.
     authenticateApiKey toyCompare store0 aliceRequest ''2026-11-03T09:00:00.000Z'' =
       (Next u ''shd_0123'' v, s1) \<and>
     logApiUsage toyCompare s1 ''shd_0123'' ''qrcode_generate''
         \<lparr>d_ip = None, d_userAgent = None\<rparr> ''l1'' ''2026-11-03T09:00:00.100Z''
         ''2026-11-03T09:00:00.200Z'' ''Tue Nov 03 2026'' = (e, s2) \<and>
     map usageCount (apiKeys store0) = [0] \<and> map usageCount (apiKeys s2) = [2] \<and>
     map usageToday (users store0) = [0] \<and> map usageToday (users s2) = [1]"
proof -
  obtain u v s1 where pass: "authenticateApiKey toyCompare store0 aliceRequest
      ''2026-11-03T09:00:00.000Z'' = (Next u ''shd_0123'' v, s1)"
    and uid: "v_userId v = ''u1''"
    by (simp add: concrete_defs run_defs)
  obtain e s2 where rec: "logApiUsage toyCompare s1 ''shd_0123'' ''qrcode_generate''
         \<lparr>d_ip = None, d_userAgent = None\<rparr> ''l1'' ''2026-11-03T09:00:00.100Z''
         ''2026-11-03T09:00:00.200Z'' ''Tue Nov 03 2026'' = (e, s2)"
    by (cases "logApiUsage toyCompare s1 ''shd_0123'' ''qrcode_generate''
         \<lparr>d_ip = None, d_userAgent = None\<rparr> ''l1'' ''2026-11-03T09:00:00.100Z''
         ''2026-11-03T09:00:00.200Z'' ''Tue Nov 03 2026''") blast
  have i: "findIndex (\<lambda>r. toyCompare ''shd_0123'' (key r) \<and> isActive_k r) (apiKeys store0) = Some 0"
    by (simp add: concrete_defs)
  have j: "findIndex (\<lambda>u. id_u u = ''u1'') (users store0) = Some 0"
    by (simp add: concrete_defs)
  from admitted_recorded_counts [OF pass rec] i j uid
  have "apiKeys s2 = (apiKeys store0)[0 := (apiKeys store0 ! 0)\<lparr>lastUsed :=
          Some ''2026-11-03T09:00:00.200Z'', usageCount := usageCount (apiKeys store0 ! 0) + 2\<rparr>]"
    and "users s2 = (users store0)[0 :=
          (if lastResetDate (users store0 ! 0) = Some ''Tue Nov 03 2026''
           then (users store0 ! 0)\<lparr>usageToday := usageToday (users store0 ! 0) + 1\<rparr>
           else (users store0 ! 0)\<lparr>lastResetDate := Some ''Tue Nov 03 2026'', usageToday := 1\<rparr>)]"
    by auto
  then have "map usageCount (apiKeys s2) = [2]" "map usageToday (users s2) = [1]"
    by (simp_all add: concrete_defs)
  moreover have "map usageCount (apiKeys store0) = [0]" "map usageToday (users store0) = [0]"
    by (simp_all add: concrete_defs)
  ultimately show ?thesis
    using pass rec
    by (intro exI [of _ u] exI [of _ v] exI [of _ s1] exI [of _ e] exI [of _ s2]) simp
qed

text \<open>
  Claim C10, as stated, has the daily counter incremented by exactly 1 for every such
  request. For a user whose counter is 5 and whose last reset was the day before, the
  request is admitted and recorded, the key's \<^verbatim>\<open>usageCount\<close> goes from 0 to 2, and
  \<^verbatim>\<open>usageToday\<close> goes from 5 to 1.
\<close>

theorem usageToday_rollover_counterexample:
  "map usageToday (users storeYesterday) = [5] \<and>
   map usageCount (apiKeys storeYesterday) = [0] \<and>
   fst (authenticateApiKey toyCompare storeYesterday aliceRequest ''2026-11-03T09:00:00.000Z'') =
     Next (Some (userInfo.truncate aliceYesterday)) ''shd_0123''
       \<lparr>v_userId = ''u1'', v_keyId = ''k1'', v_user = Some (userInfo.truncate aliceYesterday),
        v_permissions = [''*''], v_rateLimit = 100\<rparr> \<and>
   map usageToday (users (snd (logApiUsage toyCompare
       (snd (authenticateApiKey toyCompare storeYesterday aliceRequest
          ''2026-11-03T09:00:00.000Z''))
       ''shd_0123'' ''qrcode_generate'' \<lparr>d_ip = None, d_userAgent = None\<rparr> ''l1''
       ''2026-11-03T09:00:00.100Z'' ''2026-11-03T09:00:00.200Z'' ''Tue Nov 03 2026''))) = [1] \<and>
   map usageCount (apiKeys (snd (logApiUsage toyCompare
       (snd (authenticateApiKey toyCompare storeYesterday aliceRequest
          ''2026-11-03T09:00:00.000Z''))
       ''shd_0123'' ''qrcode_generate'' \<lparr>d_ip = None, d_userAgent = None\<rparr> ''l1''
       ''2026-11-03T09:00:00.100Z'' ''2026-11-03T09:00:00.200Z'' ''Tue Nov 03 2026''))) = [2]"
  by (simp add: concrete_defs aliceYesterday_def storeYesterday_def run_defs)

text \<open>Once the counter has reached the limit, the middleware denies every later
  request with that key, whatever the day, and the counter stays as it is.\<close>

lemma quota_denied_any_day:
  assumes key: "firstTruthy [header_x_api_key req, query_apiKey req, body_apiKey req] = Some k"
    and i: "findIndex (\<lambda>r. cmp k (key r) \<and> isActive_k r) (apiKeys s) = Some i"
    and j: "findIndex (\<lambda>u. id_u u = userId (apiKeys s ! i)) (users s) = Some j"
    and full: "apiLimit (users s ! j) \<le> usageToday (users s ! j)"
    and cs: "\<forall>c\<in>set cs. c_apiKey c = k"
  shows "users (requestSeq cmp s cs) = users s \<and>
         fst (authenticateApiKey cmp (requestSeq cmp s cs) req now) =
           Rejected 429 ''Daily API limit exceeded''"
  using cs i j full
proof (induction cs arbitrary: s)
  case Nil
  from authenticateApiKey_at[where cmp=cmp and now=now, OF key Nil(2) Nil(3)] Nil(4)
  show ?case by simp
next
  case (Cons c cs)
  let ?s' = "snd (admitAndRecord cmp s c)"
  from Cons.prems(1) have c: "c_apiKey c = k" and rest: "\<forall>c\<in>set cs. c_apiKey c = k"
    by auto
  have k: "k \<noteq> []" using key by (rule firstTruthy_nonempty)
  note step = admitAndRecord_step[where cmp=cmp, OF k c Cons.prems(2) Cons.prems(3)]
  from step(4) Cons.prems(4) have us: "users ?s' = users s" by simp
  have j': "findIndex (\<lambda>u. id_u u = userId (apiKeys ?s' ! i)) (users ?s') = Some j"
    using step(2,3) by simp
  from Cons.IH[OF rest step(1) j'] us Cons.prems(4)
  show ?case by simp
qed

text \<open>
  Claim C2 says that, once the day of the last reset has passed, the counter of a
  user who reached the limit is reset to 0 and the next request is admitted. The
  reset is in \<^verbatim>\<open>updateUserUsage\<close> only, which runs after the middleware has admitted
  the request; the middleware compares the stored counter and never looks at the
  date. Alice reached her limit of 2 on the second of November. On the third her
  request is answered 429, the request is not recorded and her counter stays 2;
  \<^verbatim>\<open>updateUserUsage\<close>, had it run, would have reset it.
\<close>

theorem quota_never_reset_by_middleware:
  "authenticateApiKey toyCompare storeExhausted aliceRequest ''2026-11-03T09:00:00.000Z'' =
     (Rejected 429 ''Daily API limit exceeded'',
      storeExhausted\<lparr>apiKeys := [aliceKey\<lparr>lastUsed := Some ''2026-11-03T09:00:00.000Z'',
                                            usageCount := 1\<rparr>]\<rparr>) \<and>
   users (snd (admitAndRecord toyCompare storeExhausted call1)) = [aliceExhausted] \<and>
   users (updateUserUsage storeExhausted ''u1'' ''Tue Nov 03 2026'') =
     [aliceExhausted\<lparr>lastResetDate := Some ''Tue Nov 03 2026'', usageToday := 1\<rparr>]"
  by (simp add: concrete_defs aliceExhausted_def storeExhausted_def run_defs)

section \<open>Issued keys\<close>

text \<open>The record \<^verbatim>\<open>createApiKey\<close> pushes and writes holds the secret itself in its
  field \<^verbatim>\<open>plainKey\<close>, next to the hash.\<close>

lemma createApiKey_stores_plainKey:
  "plainKey (last (apiKeys (snd (createApiKey hsh s uid nm uuid1 uuid2 now)))) =
     apiKey_c (fst (createApiKey hsh s uid nm uuid1 uuid2 now)) \<and>
   apiKey_c (fst (createApiKey hsh s uid nm uuid1 uuid2 now)) = ''shd_'' @ removeDashes uuid1 \<and>
   key (last (apiKeys (snd (createApiKey hsh s uid nm uuid1 uuid2 now)))) =
     hsh (''shd_'' @ removeDashes uuid1)"
  by (simp add: createApiKey_def Let_def)

text \<open>
  Claim C1 says that the secret is never persisted in recoverable form. For the
  UUID \<^verbatim>\<open>123e4567-e89b-42d3-a456-426614174000\<close> the secret returned to the caller is
  \<^verbatim>\<open>shd_123e4567e89b42d3a456426614174000\<close>, and the array written to
  \<^verbatim>\<open>api-keys.json\<close> holds that text in the field \<^verbatim>\<open>plainKey\<close> of the new record.
  (\<^verbatim>\<open>getApiKeysByUser\<close> does not return the field: a \<open>keySummary\<close> has none.)
\<close>

theorem createApiKey_plainKey_persisted:
  "apiKey_c (fst (createApiKey toyHash store0 ''u1'' (Some ''second'')
       ''123e4567-e89b-42d3-a456-426614174000'' ''k2'' ''2026-11-03T09:00:00.000Z'')) =
     ''shd_123e4567e89b42d3a456426614174000'' \<and>
   map plainKey (apiKeys (snd (createApiKey toyHash store0 ''u1'' (Some ''second'')
       ''123e4567-e89b-42d3-a456-426614174000'' ''k2'' ''2026-11-03T09:00:00.000Z''))) =
     [''shd_0123'', ''shd_123e4567e89b42d3a456426614174000'']"
  by (simp add: createApiKey_def Let_def removeDashes_def concrete_defs)

section \<open>The usage log\<close>

lemma take_append_take: "take n (xs @ take n ys) = take n (xs @ ys)"
  by (simp add: min_def)

lemma logApiUsageSeq_logs:
  "logs (logApiUsageSeq cmp s cs) =
     (if cs = [] then logs s else take 1000 (rev (map callEntry cs) @ logs s))"
proof (induction cs arbitrary: s)
  case Nil
  show ?case by simp
next
  case (Cons c cs)
  let ?s' = "snd (logApiUsage cmp s (c_apiKey c) (c_endpoint c) (c_data c) (c_uuid c) (c_now c)
               (c_nowV c) (c_today c))"
  have l': "logs ?s' = take 1000 (callEntry c # logs s)"
    using logApiUsage_logs[of cmp s "c_apiKey c" "c_endpoint c" "c_data c" "c_uuid c" "c_now c"
        "c_nowV c" "c_today c"]
    by (simp only: callEntry_def)
  show ?case
  proof (cases "cs = []")
    case True
    with l' show ?thesis by simp
  next
    case False
    with Cons.IH[of ?s'] have "logs (logApiUsageSeq cmp ?s' cs) =
        take 1000 (rev (map callEntry cs) @ take 1000 (callEntry c # logs s))"
      by (simp only: l' if_False)
    also have "\<dots> = take 1000 (rev (map callEntry cs) @ callEntry c # logs s)"
      by (rule take_append_take)
    finally show ?thesis by simp
  qed
qed

text \<open>
  Claim C5. Every call of \<^verbatim>\<open>logApiUsage\<close> returns its entry, puts it at the head of
  the log and keeps the first 1000 entries. So after a non-empty list of calls the
  log is the entries of the calls, newest first, followed by the old log, cut at
  1000; and after 1001 calls it is exactly the entries of the last 1000 calls, newest
  first.
\<close>

theorem usage_log_capped:
  "fst (logApiUsage cmp s k ep dat uuid now nowV today) = mkLogEntry k ep dat uuid now \<and>
   logs (snd (logApiUsage cmp s k ep dat uuid now nowV today)) =
     take 1000 (mkLogEntry k ep dat uuid now # logs s) \<and>
   (cs \<noteq> [] \<longrightarrow>
      logs (logApiUsageSeq cmp s cs) = take 1000 (rev (map callEntry cs) @ logs s)) \<and>
   (length cs = 1001 \<longrightarrow>
      logs (logApiUsageSeq cmp s cs) = rev (map callEntry (tl cs)) \<and>
      length (logs (logApiUsageSeq cmp s cs)) = 1000)"
proof (intro conjI impI)
  show "fst (logApiUsage cmp s k ep dat uuid now nowV today) = mkLogEntry k ep dat uuid now"
    and "logs (snd (logApiUsage cmp s k ep dat uuid now nowV today)) =
      take 1000 (mkLogEntry k ep dat uuid now # logs s)"
    using logApiUsage_logs[of cmp s k ep dat uuid now nowV today] by simp_all
next
  assume "cs \<noteq> []"
  then show "logs (logApiUsageSeq cmp s cs) = take 1000 (rev (map callEntry cs) @ logs s)"
    by (simp only: logApiUsageSeq_logs if_False)
next
  assume len: "length cs = 1001"
  then obtain c cs' where cs: "cs = c # cs'" and len': "length cs' = 1000"
    by (cases cs) auto
  have ne: "cs \<noteq> []"
    using cs by simp
  have "logs (logApiUsageSeq cmp s cs) = take 1000 (rev (map callEntry cs) @ logs s)"
    using ne by (simp only: logApiUsageSeq_logs if_False)
  also have "\<dots> = rev (map callEntry cs')"
    using len' by (simp add: cs)
  finally show eq: "logs (logApiUsageSeq cmp s cs) = rev (map callEntry (tl cs))"
    by (simp add: cs)
  show "length (logs (logApiUsageSeq cmp s cs)) = 1000"
    unfolding eq using len' by (simp add: cs)
qed

theorem usage_log_capped_witness:
  "length (map numberedCall [0..<1001]) = 1001 \<and>
   logs (logApiUsageSeq toyCompare store0 (map numberedCall [0..<1001])) =
     rev (map callEntry (map numberedCall [1..<1001])) \<and>
   length (logs (logApiUsageSeq toyCompare store0 (map numberedCall [0..<1001]))) = 1000 \<and>
   logs (logApiUsageSeq toyCompare store0 [call1, call2]) = [callEntry call2, callEntry call1]"
proof -
  have len: "length (map numberedCall [0..<1001]) = 1001"
    by (simp only: length_map length_upt diff_zero)
  have tl: "tl (map numberedCall [0..<1001]) = map numberedCall [1..<1001]"
    by (simp only: map_tl [symmetric] tl_upt One_nat_def)
  have two: "[call1, call2] \<noteq> []"
    by simp
  note a = usage_log_capped [where cs = "map numberedCall [0..<1001]" and cmp = toyCompare
      and s = store0]
  note b = usage_log_capped [where cs = "[call1, call2]" and cmp = toyCompare and s = store0]
  from a len have 1: "logs (logApiUsageSeq toyCompare store0 (map numberedCall [0..<1001])) =
       rev (map callEntry (tl (map numberedCall [0..<1001])))"
    and 2: "length (logs (logApiUsageSeq toyCompare store0 (map numberedCall [0..<1001]))) = 1000"
    by blast+
  from b two have "logs (logApiUsageSeq toyCompare store0 [call1, call2]) =
      take 1000 (rev (map callEntry [call1, call2]) @ logs store0)"
    by blast
  then have 3: "logs (logApiUsageSeq toyCompare store0 [call1, call2]) =
      [callEntry call2, callEntry call1]"
    by (simp add: store0_def)
  from len 1 2 3 show ?thesis
    by (simp only: tl simp_thms)
qed

section \<open>Usage statistics\<close>

lemma prefixes_differ:
  assumes "startsWith l ''shd_''" "startsWith h ''$2''"
  shows "\<not> startsWith l (take 8 h)"
proof -
  from assms(1) obtain l' where l: "l = CHR ''s'' # l'"
    by (cases l) (auto simp: startsWith_def)
  from assms(2) obtain h' where h: "h = CHR ''$'' # h'"
    by (cases h) (auto simp: startsWith_def)
  show ?thesis
    by (simp add: l h startsWith_def)
qed

lemma logged_prefix:
  assumes "startsWith k ''shd_''"
  shows "startsWith (apiKey_l (mkLogEntry k ep dat uuid now)) ''shd_''"
proof -
  from assms have "take (length ''shd_'') k = ''shd_''"
    by (simp only: startsWith_def)
  then obtain k' where "k = ''shd_'' @ k'"
    by (metis append_take_drop_id)
  then show ?thesis
    by (simp add: mkLogEntry_def startsWith_def)
qed

lemma validateApiKey_preserves:
  "map key (apiKeys (snd (validateApiKey cmp s k now))) = map key (apiKeys s) \<and>
   map userId (apiKeys (snd (validateApiKey cmp s k now))) = map userId (apiKeys s) \<and>
   users (snd (validateApiKey cmp s k now)) = users s \<and>
   logs (snd (validateApiKey cmp s k now)) = logs s"
proof (cases "findIndex (\<lambda>r. cmp k (key r) \<and> isActive_k r) (apiKeys s)")
  case None
  then show ?thesis
    by (simp add: validateApiKey_def validateScan_findIndex)
next
  case (Some i)
  from findIndex_Some[OF Some] have "i < length (apiKeys s)" by simp
  then show ?thesis
    by (simp add: validateApiKey_at[where cmp=cmp and k=k and s=s and now=now, OF Some]
        map_update list_update_same_conv)
qed

lemma updateUserUsage_preserves:
  "apiKeys (updateUserUsage s uid today) = apiKeys s \<and>
   logs (updateUserUsage s uid today) = logs s \<and>
   map id_u (users (updateUserUsage s uid today)) = map id_u (users s)"
proof (cases "findIndex (\<lambda>u. id_u u = uid) (users s)")
  case None
  then show ?thesis by (simp add: updateUserUsage_def)
next
  case (Some j)
  from findIndex_Some[OF Some] have "j < length (users s)" by simp
  then show ?thesis
    by (simp add: updateUserUsage_at[OF Some] map_update list_update_same_conv)
qed

lemma logApiUsage_preserves:
  "map key (apiKeys (snd (logApiUsage cmp s k ep dat uuid now nowV today))) = map key (apiKeys s) \<and>
   map userId (apiKeys (snd (logApiUsage cmp s k ep dat uuid now nowV today))) =
     map userId (apiKeys s) \<and>
   map id_u (users (snd (logApiUsage cmp s k ep dat uuid now nowV today))) = map id_u (users s)"
proof -
  let ?s1 = "s\<lparr>logs := (if 1000 < length (mkLogEntry k ep dat uuid now # logs s)
      then take 1000 (mkLogEntry k ep dat uuid now # logs s)
      else mkLogEntry k ep dat uuid now # logs s)\<rparr>"
  note v = validateApiKey_preserves[of cmp ?s1 k nowV]
  show ?thesis
  proof (cases "validateApiKey cmp ?s1 k nowV")
    case (Pair r s2)
    with v have s2: "map key (apiKeys s2) = map key (apiKeys s)"
      "map userId (apiKeys s2) = map userId (apiKeys s)" "users s2 = users s"
      by simp_all
    show ?thesis
    proof (cases r)
      case Invalid
      with Pair s2 show ?thesis
        by (simp add: logApiUsage_def Let_def)
    next
      case (Valid keyData)
      with Pair s2 updateUserUsage_preserves[of s2 "v_userId keyData" today] show ?thesis
        by (simp add: logApiUsage_def Let_def)
    qed
  qed
qed

lemma logApiUsageSeq_preserves:
  assumes "\<forall>c\<in>set cs. startsWith (c_apiKey c) ''shd_''"
    and "\<forall>l\<in>set (logs s). startsWith (apiKey_l l) ''shd_''"
  shows "map key (apiKeys (logApiUsageSeq cmp s cs)) = map key (apiKeys s) \<and>
         map id_u (users (logApiUsageSeq cmp s cs)) = map id_u (users s) \<and>
         (\<forall>l\<in>set (logs (logApiUsageSeq cmp s cs)). startsWith (apiKey_l l) ''shd_'')"
  using assms
proof (induction cs arbitrary: s)
  case Nil
  then show ?case by simp
next
  case (Cons c cs)
  let ?s' = "snd (logApiUsage cmp s (c_apiKey c) (c_endpoint c) (c_data c) (c_uuid c) (c_now c)
               (c_nowV c) (c_today c))"
  from Cons.prems(1) have c: "startsWith (c_apiKey c) ''shd_''"
    and rest: "\<forall>c\<in>set cs. startsWith (c_apiKey c) ''shd_''"
    by auto
  have "logs ?s' = take 1000 (mkLogEntry (c_apiKey c) (c_endpoint c) (c_data c) (c_uuid c)
      (c_now c) # logs s)"
    using logApiUsage_logs by blast
  then have "set (logs ?s') \<subseteq> insert (mkLogEntry (c_apiKey c) (c_endpoint c) (c_data c)
      (c_uuid c) (c_now c)) (set (logs s))"
    using set_take_subset[of 1000 "mkLogEntry (c_apiKey c) (c_endpoint c) (c_data c)
      (c_uuid c) (c_now c) # logs s"] by simp
  with Cons.prems(2) logged_prefix[OF c]
  have l': "\<forall>l\<in>set (logs ?s'). startsWith (apiKey_l l) ''shd_''"
    by blast
  from Cons.IH[OF rest l']
    logApiUsage_preserves[of cmp s "c_apiKey c" "c_endpoint c" "c_data c" "c_uuid c" "c_now c"
      "c_nowV c" "c_today c"]
  show ?case by simp
qed

lemma getUserUsage_disjoint_prefixes:
  assumes hashes: "\<forall>r\<in>set (apiKeys s). startsWith (key r) ''$2''"
    and entries: "\<forall>l\<in>set (logs s). startsWith (apiKey_l l) ''shd_''"
    and user: "List.find (\<lambda>u. id_u u = uid) (users s) = Some u"
  shows "getUserUsage tds s uid today =
     Some \<lparr>totalRequests = 0, todayRequests = 0,
           dailyLimit = (if apiLimit u = 0 then 1000 else apiLimit u),
           usageToday_r = usageToday u, lastRequest = None\<rparr>"
proof -
  have nomatch: "\<not> list_ex (\<lambda>key. startsWith (apiKey_l l) (take 8 key))
          (map key (filter (\<lambda>k. userId k = uid) (apiKeys s)))" if "l \<in> set (logs s)" for l
    using that hashes entries prefixes_differ
    by (auto simp: list_ex_iff)
  then have none: "filter (\<lambda>log. list_ex (\<lambda>key. startsWith (apiKey_l log) (take 8 key))
          (map key (filter (\<lambda>k. userId k = uid) (apiKeys s)))) (logs s) = []"
    by (simp add: filter_empty_conv)
  show ?thesis
    unfolding getUserUsage_def Let_def user none by simp
qed

text \<open>
  Claim C9, as the source has it. Let every stored hash start with \<^verbatim>\<open>$2\<close> (as the
  hashes of bcrypt do) and let every request be logged with a presented key that
  starts with \<^verbatim>\<open>shd_\<close> (as the keys issued by \<^verbatim>\<open>createApiKey\<close> do), the entries
  already in the log being of that kind. Then for every stored user \<^verbatim>\<open>getUserUsage\<close>
  reports \<^verbatim>\<open>totalRequests = 0\<close>, \<^verbatim>\<open>todayRequests = 0\<close> and \<^verbatim>\<open>lastRequest = null\<close>: no entry
  matches the first 8 characters of a hash.
\<close>

theorem getUserUsage_issued_keys:
  assumes hashes: "\<forall>r\<in>set (apiKeys s). startsWith (key r) ''$2''"
    and entries: "\<forall>l\<in>set (logs s). startsWith (apiKey_l l) ''shd_''"
    and calls: "\<forall>c\<in>set cs. startsWith (c_apiKey c) ''shd_''"
    and user: "\<exists>u\<in>set (users s). id_u u = uid"
  shows "\<exists>st. getUserUsage tds (logApiUsageSeq cmp s cs) uid today = Some st \<and>
           totalRequests st = 0 \<and> todayRequests st = 0 \<and> lastRequest st = None"
proof -
  let ?s' = "logApiUsageSeq cmp s cs"
  from logApiUsageSeq_preserves[OF calls entries, of cmp]
  have keys: "map key (apiKeys ?s') = map key (apiKeys s)"
    and ids: "map id_u (users ?s') = map id_u (users s)"
    and entries': "\<forall>l\<in>set (logs ?s'). startsWith (apiKey_l l) ''shd_''"
    by auto
  have hashes': "\<forall>r\<in>set (apiKeys ?s'). startsWith (key r) ''$2''"
  proof
    fix r assume "r \<in> set (apiKeys ?s')"
    then have "key r \<in> set (map key (apiKeys ?s'))" by simp
    then have "key r \<in> set (map key (apiKeys s))" by (simp only: keys)
    then obtain r0 where "r0 \<in> set (apiKeys s)" "key r0 = key r" by auto
    with hashes show "startsWith (key r) ''$2''" by metis
  qed
  from user have "uid \<in> set (map id_u (users s))" by auto
  then have "uid \<in> set (map id_u (users ?s'))" by (simp only: ids)
  then have "\<exists>u\<in>set (users ?s'). id_u u = uid" by auto
  then obtain u where "List.find (\<lambda>u. id_u u = uid) (users ?s') = Some u"
    by (cases "List.find (\<lambda>u. id_u u = uid) (users ?s')") (auto simp: find_None_iff)
  from getUserUsage_disjoint_prefixes[OF hashes' entries' this, of tds today]
  show ?thesis by simp
qed

theorem getUserUsage_issued_keys_witness:
  "\<exists>st. getUserUsage toyDateString (logApiUsageSeq toyCompare store0 [call1, call2]) ''u1''
           ''Tue Nov 03 2026'' = Some st \<and>
         totalRequests st = 0 \<and> todayRequests st = 0 \<and> lastRequest st = None \<and>
         usageToday_r st = 2 \<and>
         length (logs (logApiUsageSeq toyCompare store0 [call1, call2])) = 2"
proof -
  have hashes: "\<forall>r\<in>set (apiKeys store0). startsWith (key r) ''$2''"
    by (simp add: concrete_defs startsWith_def)
  have entries: "\<forall>l\<in>set (logs store0). startsWith (apiKey_l l) ''shd_''"
    by (simp add: store0_def)
  have calls: "\<forall>c\<in>set [call1, call2]. startsWith (c_apiKey c) ''shd_''"
    by (simp add: concrete_defs startsWith_def)
  have user: "\<exists>u\<in>set (users store0). id_u u = ''u1''"
    by (simp add: concrete_defs)
  from getUserUsage_issued_keys [OF hashes entries calls user, of toyDateString toyCompare
      "''Tue Nov 03 2026''"]
  obtain st where st: "getUserUsage toyDateString
      (logApiUsageSeq toyCompare store0 [call1, call2]) ''u1'' ''Tue Nov 03 2026'' = Some st"
    and zero: "totalRequests st = 0" "todayRequests st = 0" "lastRequest st = None"
    by blast
  have run: "users (logApiUsageSeq toyCompare store0 [call1, call2]) =
      [alice\<lparr>lastResetDate := Some ''Tue Nov 03 2026'', usageToday := 2\<rparr>]"
    and len: "length (logs (logApiUsageSeq toyCompare store0 [call1, call2])) = 2"
    by (simp_all add: concrete_defs run_defs)
  from st have "usageToday_r st = 2"
    unfolding getUserUsage_def run by (auto simp: Let_def alice_def)
  with st zero len show ?thesis
    by (intro exI [of _ st]) simp
qed

text \<open>
  Claim C9, as stated, is about every sequence of logged requests. \<^verbatim>\<open>logApiUsage\<close>
  logs the first 8 characters of whatever key is presented, valid or not. A request
  logged with the key \<^verbatim>\<open>$2a$10$Nope\<close> leaves the entry \<^verbatim>\<open>$2a$10$N...\<close>, which starts
  with the first 8 characters of the hash of Alice's key, and \<^verbatim>\<open>getUserUsage\<close> counts
  it.
\<close>

theorem getUserUsage_prefix_counterexample:
  "getUserUsage toyDateString
     (snd (logApiUsage toyCompare bcryptStore ''$2a$10$Nope'' ''qrcode_generate''
             \<lparr>d_ip = None, d_userAgent = None\<rparr> ''l1'' ''2026-11-03T09:00:00.100Z''
             ''2026-11-03T09:00:00.200Z'' ''Tue Nov 03 2026''))
     ''u1'' ''Tue Nov 03 2026'' =
   Some \<lparr>totalRequests = 1, todayRequests = 1, dailyLimit = 2, usageToday_r = 0,
         lastRequest = Some ''2026-11-03T09:00:00.100Z''\<rparr>"
  by (simp add: concrete_defs bcryptStore_def run_defs getUserUsage_def startsWith_def
      toyDateString_def)

end
